theory Spec2Isabelle
  imports Main "HOL-Library.Sublist" "HOL-Library.Signed_Division"
begin

section \<open>The line reader of package lined\<close>

text \<open>
  The development embeds \<^verbatim>\<open>input.go\<close> (the revision with the mutex, the cursor report
  and the multi-line redraw). A Go \<^verbatim>\<open>[]byte\<close> and a Go \<^verbatim>\<open>string\<close> are both byte
  sequences, modelled as \<^typ>\<open>string\<close>; a Go \<^verbatim>\<open>int\<close> is modelled as \<^typ>\<open>int\<close>
  (every integer of the reader is a buffer index, a screen size or a number of at most
  fifteen decimal digits, far from the 64-bit bounds). Go's \<^verbatim>\<open>/\<close> and \<^verbatim>\<open>%\<close>
  truncate towards zero: they are \<open>sdiv\<close> and \<open>smod\<close>.
\<close>

subsection \<open>Bytes named in the source\<close>

abbreviation ETX :: char where "ETX \<equiv> CHR 0x03"
abbreviation EOT :: char where "EOT \<equiv> CHR 0x04"
abbreviation SOH :: char where "SOH \<equiv> CHR 0x01"
abbreviation ENQ :: char where "ENQ \<equiv> CHR 0x05"
abbreviation BS :: char where "BS \<equiv> CHR 0x08"
abbreviation LF :: char where "LF \<equiv> CHR 0x0A"
abbreviation CR :: char where "CR \<equiv> CHR 0x0D"
abbreviation DC4 :: char where "DC4 \<equiv> CHR 0x14"
abbreviation ESC :: char where "ESC \<equiv> CHR 0x1B"
abbreviation DEL :: char where "DEL \<equiv> CHR 0x7F"

subsection \<open>The Reader and its history\<close>

record reader =
  h :: "string list"
  unread :: string
  offset :: int
  row :: int
  col :: int
  atR :: int
  atC :: int

definition NewReader :: reader where
  "NewReader = \<lparr>h = [], unread = [], offset = 0, row = 0, col = 0, atR = 0, atC = 0\<rparr>"

text \<open>What stops a Go program: a run-time panic or \<^verbatim>\<open>log.Fatalf\<close>.\<close>

datatype abort = IndexOutOfRange | SliceBounds | DivideByZero | LogFatal

text \<open>
  \<^verbatim>\<open>History\<close>. A nil receiver is \<open>None\<close>. The index expression \<^verbatim>\<open>r.h[m-1-n]\<close> panics
  when \<^verbatim>\<open>m-1-n\<close> is outside \<^verbatim>\<open>[0, m)\<close>.
\<close>

definition History :: "reader option \<Rightarrow> int \<Rightarrow> abort + (string \<times> int)" where
  "History ro n =
     (case ro of
        None \<Rightarrow> Inr ([], 0)
      | Some r \<Rightarrow>
          (let m = int (length (h r)) in
           if m < n \<or> n < 0 then Inr ([], m)
           else if 0 \<le> m - 1 - n \<and> m - 1 - n < m then Inr (h r ! nat (m - 1 - n), m)
           else Inl IndexOutOfRange))"

subsection \<open>Output: formatting and cursor movement\<close>

text \<open>\<^verbatim>\<open>%d\<close> of \<^verbatim>\<open>fmt.Printf\<close>: the decimal digits of an integer.\<close>

fun digits :: "nat \<Rightarrow> string" where
  "digits n =
     (if n < 10 then [''0123456789'' ! n]
      else digits (n div 10) @ [''0123456789'' ! (n mod 10)])"

declare digits.simps [simp del]

definition fmt_d :: "int \<Rightarrow> string" where
  "fmt_d n = (if n < 0 then CHR ''-'' # digits (nat (- n)) else digits (nat n))"

text \<open>Each cursor function is the text it prints on the terminal.\<close>

definition up :: "int \<Rightarrow> string" where
  "up n =
     (if n > 0 then ESC # ''['' @ fmt_d n @ ''A''
      else if n < 0 then ESC # ''['' @ fmt_d (- n) @ ''B''
      else [])"

definition down :: "int \<Rightarrow> string" where
  "down n = up (- n)"

definition left :: "int \<Rightarrow> string" where
  "left n =
     (if n > 0 then ESC # ''['' @ fmt_d n @ ''D''
      else if n < 0 then ESC # ''['' @ fmt_d (- n) @ ''C''
      else [])"

definition right :: "int \<Rightarrow> string" where
  "right n = left (- n)"

definition start :: string where
  "start = ESC # ''[G''"

definition clearEOL :: string where
  "clearEOL = ESC # ''[0K''"

definition clearLine :: string where
  "clearLine = ESC # ''[2K''"

subsection \<open>The state of one call of readString\<close>

datatype error = ErrNoReader | ErrTerminated | ErrEOF | StreamError string

text \<open>
  The state of a running \<^verbatim>\<open>readString\<close> is the Reader together with the local variables
  the closures of the command table share (\<^verbatim>\<open>pick\<close>, \<^verbatim>\<open>newline\<close>), the 20-byte input
  array \<^verbatim>\<open>p\<close> with its fill level \<^verbatim>\<open>from\<close> (here \<open>frm\<close>), the two redraw variables,
  and \<open>out\<close>, everything written to the terminal so far.
\<close>

record state = reader +
  pick :: int
  p :: string
  frm :: int
  newline :: int
  was :: int
  wasLines :: int
  out :: string

text \<open>\<^verbatim>\<open>copy(p[:], p[c:])\<close>: the array moves left by \<open>c\<close>; its last \<open>c\<close> bytes stay.\<close>

definition shift :: "nat \<Rightarrow> string \<Rightarrow> string" where
  "shift c q = drop c q @ drop (length q - c) q"

subsection \<open>The command table\<close>

text \<open>
  A handler returns the pair \<^verbatim>\<open>([]byte, error)\<close> of the source (\<open>None\<close> for nil) with the
  state it leaves, or the panic of a slice or index expression out of range.
\<close>

type_synonym handler = "string \<Rightarrow> state \<Rightarrow> abort + (state \<times> string option \<times> error option)"

definition delete_next :: handler where
  "delete_next m s =
     (if offset s = int (length (unread s)) then Inr (s, Some (unread s), Some ErrEOF)
      else if offset s < 0 \<or> int (length (unread s)) < offset s then Inl SliceBounds
      else Inr (s\<lparr>unread := take (nat (offset s)) (unread s) @ drop (nat (offset s + 1)) (unread s)\<rparr>,
                None, None))"

definition delete_prev :: handler where
  "delete_prev m s =
     (if offset s > 0 then
        (if int (length (unread s)) < offset s then Inl SliceBounds
         else Inr (s\<lparr>offset := offset s - 1,
                     unread := take (nat (offset s - 1)) (unread s) @ drop (nat (offset s)) (unread s)\<rparr>,
                   None, None))
      else Inr (s, None, None))"

definition start_of_line :: handler where
  "start_of_line m s = Inr (s\<lparr>offset := 0\<rparr>, None, None)"

definition end_of_line :: handler where
  "end_of_line m s = Inr (s\<lparr>offset := int (length (unread s))\<rparr>, None, None)"

definition transpose_chars :: handler where
  "transpose_chars m s =
     (let c = (if offset s = int (length (unread s)) then offset s - 1 else offset s) in
      if c > 0 then
        (if int (length (unread s)) \<le> c then Inl IndexOutOfRange
         else
           (let d = c - 1;
                u = (unread s)[nat c := unread s ! nat d, nat d := unread s ! nat c]
            in Inr (s\<lparr>unread := u, offset := (if c = offset s then offset s + 1 else offset s)\<rparr>,
                    None, None)))
      else Inr (s, None, None))"

definition up_arrow :: "bool \<Rightarrow> handler" where
  "up_arrow echo m s =
     (if echo \<and> pick s < int (length (h s)) then
        (let i = int (length (h s)) - pick s - 1 in
         if i < 0 \<or> int (length (h s)) \<le> i then Inl IndexOutOfRange
         else
           (let old = h s ! nat i in
            if old = [] then Inl SliceBounds
            else
              (let d = butlast old in
               Inr (s\<lparr>offset := int (length d), unread := d, pick := pick s + 1\<rparr>, None, None))))
      else Inr (s, None, None))"

definition down_arrow :: "bool \<Rightarrow> handler" where
  "down_arrow echo m s =
     (if \<not> echo then Inr (s, None, None)
      else
        (let dPick = pick s - 2 in
         if dPick \<ge> 0 then
           (let i = int (length (h s)) - dPick - 1 in
            if i < 0 \<or> int (length (h s)) \<le> i then Inl IndexOutOfRange
            else
              (let old = h s ! nat i in
               if old = [] then Inl SliceBounds
               else
                 (let d = butlast old in
                  Inr (s\<lparr>pick := pick s - 1, offset := int (length d), unread := d\<rparr>, None, None))))
         else Inr (s\<lparr>offset := 0, unread := [], pick := 0\<rparr>, None, None)))"

definition right_arrow :: handler where
  "right_arrow m s =
     (let k = offset s + 1 in
      Inr (s\<lparr>offset := (if k > int (length (unread s)) then int (length (unread s)) else k)\<rparr>,
           None, None))"

definition left_arrow :: handler where
  "left_arrow m s =
     (let k = offset s - 1 in Inr (s\<lparr>offset := (if k < 0 then 0 else k)\<rparr>, None, None))"

definition carriage_return :: handler where
  "carriage_return m s =
     Inr (s\<lparr>offset := int (length (unread s)), newline := int (length (unread s)),
             out := out s @ [CR, LF]\<rparr>,
          Some [LF], None)"

definition specials :: "bool \<Rightarrow> (string list \<times> handler) list" where
  "specials echo =
     [([[EOT], ESC # ''[3~''], delete_next),
      ([[DEL], [BS]], delete_prev),
      ([[SOH], ESC # ''[H''], start_of_line),
      ([[ENQ], ESC # ''[4~'', ESC # ''[F'', ESC # ''$''], end_of_line),
      ([[DC4]], transpose_chars),
      ([ESC # ''[A''], up_arrow echo),
      ([ESC # ''[B''], down_arrow echo),
      ([ESC # ''[C''], right_arrow),
      ([ESC # ''[D''], left_arrow),
      ([[CR], [LF]], carriage_return)]"

subsection \<open>Recognising one command\<close>

text \<open>
  \<^verbatim>\<open>match\<close> compares the first bytes of \<open>q\<close> with each value in turn. The array \<^verbatim>\<open>p\<close>
  has 20 bytes and the values of the source have one or two, so \<^verbatim>\<open>p[:l]\<close> never fails.
\<close>

fun match :: "string \<Rightarrow> string list \<Rightarrow> nat \<times> bool" where
  "match q [] = (0, False)"
| "match q (v # vs) = (if take (length v) q = v then (length v, True) else match q vs)"

text \<open>
  The result of the two nested loops over the table: a return of \<^verbatim>\<open>readString\<close> (the
  handler gave an error), a panic, or the state with the variables \<^verbatim>\<open>b\<close>, \<^verbatim>\<open>partial\<close>,
  \<^verbatim>\<open>found\<close> and \<^verbatim>\<open>keep\<close>. \<^verbatim>\<open>bytes.HasPrefix(code, p[:from])\<close> is
  \<open>prefix (take from p) code\<close>, and \<^verbatim>\<open>bytes.HasPrefix(p, code)\<close> is \<open>prefix code p\<close>.
\<close>

datatype scan = Ret string error state | Abt abort | Scanned state string bool bool bool

text \<open>What follows a match: the handler runs; an error makes \<^verbatim>\<open>readString\<close> return, a
  non-nil result replaces \<^verbatim>\<open>b\<close> (\<^verbatim>\<open>keep\<close>), and otherwise the code is taken out of
  \<^verbatim>\<open>p\<close>.\<close>

definition fire :: "handler \<Rightarrow> string \<Rightarrow> state \<Rightarrow> string \<Rightarrow> bool \<Rightarrow> scan" where
  "fire fn m s b partial =
     (case fn m s of
        Inl a \<Rightarrow> Abt a
      | Inr (s', x, Some e) \<Rightarrow> Ret (case x of None \<Rightarrow> [] | Some y \<Rightarrow> y) e s'
      | Inr (s', Some x, None) \<Rightarrow> Scanned s' x partial True True
      | Inr (s', None, None) \<Rightarrow>
          Scanned (s'\<lparr>p := shift (length m) (p s'), frm := frm s' - int (length m)\<rparr>)
            b partial True False)"

fun scan_codes :: "handler \<Rightarrow> string list \<Rightarrow> state \<Rightarrow> string \<Rightarrow> bool \<Rightarrow> scan" where
  "scan_codes fn [] s b partial = Scanned s b partial False False"
| "scan_codes fn (m # ms) s b partial =
     (if frm s < int (length m) then
        scan_codes fn ms s b (partial \<or> prefix (take (nat (frm s)) (p s)) m)
      else if \<not> prefix m (p s) then scan_codes fn ms s b partial
      else fire fn m s b partial)"

fun scan_specials :: "(string list \<times> handler) list \<Rightarrow> state \<Rightarrow> string \<Rightarrow> bool \<Rightarrow> scan" where
  "scan_specials [] s b partial = Scanned s b partial False False"
| "scan_specials ((codes, fn) # sps) s b partial =
     (case scan_codes fn codes s b partial of
        Scanned s' b' partial' found keep \<Rightarrow>
          if found then Scanned s' b' partial' found keep
          else scan_specials sps s' b' partial'
      | r \<Rightarrow> r)"

subsection \<open>The cursor report\<close>

text \<open>
  \<^verbatim>\<open>cursorAt\<close> is the regular expression \<^verbatim>\<open>^(\d+);(\d+)R\<close>. A run of digits is followed
  by a byte that is no digit, so the greedy match is the only one: the result is the
  whole match with its two groups. \<^verbatim>\<open>strconv.Atoi\<close> fails on a value above the
  largest 64-bit integer.
\<close>

definition is_digit :: "char \<Rightarrow> bool" where
  "is_digit c = (c \<in> set ''0123456789'')"

definition cursorAt :: "string \<Rightarrow> (string \<times> string \<times> string) option" where
  "cursorAt t =
     (let d1 = takeWhile is_digit t; t1 = dropWhile is_digit t in
      if d1 = [] then None
      else
        (case t1 of
           [] \<Rightarrow> None
         | c # t2 \<Rightarrow>
             if c \<noteq> CHR '';'' then None
             else
               (let d2 = takeWhile is_digit t2; t3 = dropWhile is_digit t2 in
                if d2 = [] then None
                else
                  (case t3 of
                     [] \<Rightarrow> None
                   | c' # _ \<Rightarrow>
                       if c' = CHR ''R'' then Some (d1 @ '';'' @ d2 @ ''R'', d1, d2) else None))))"

definition Atoi :: "string \<Rightarrow> int option" where
  "Atoi ds =
     (let v = foldl (\<lambda>a c. 10 * a + (of_char c - 48)) (0::int) ds in
      if v \<le> 9223372036854775807 then Some v else None)"

subsection \<open>The inner loop: one command or one literal byte at a time\<close>

datatype step = Continue state | Break state | Return string error state | Abort abort

text \<open>
  ``Consume exactly one character of input'': \<open>b\<close> (the byte \<^verbatim>\<open>p[0]\<close>, or the line feed
  the carriage-return handler gave) goes into \<^verbatim>\<open>r.unread\<close> at \<^verbatim>\<open>r.offset\<close>.
  \<^verbatim>\<open>r.unread[r.offset:]\<close> panics outside \<^verbatim>\<open>[0, len]\<close>.
\<close>

definition consume :: "string \<Rightarrow> state \<Rightarrow> step" where
  "consume b s =
     (if offset s < 0 \<or> int (length (unread s)) < offset s then Abort SliceBounds
      else Continue (s\<lparr>unread := take (nat (offset s)) (unread s) @ b @ drop (nat (offset s)) (unread s),
                        offset := offset s + 1,
                        p := shift 1 (p s),
                        frm := frm s - 1\<rparr>))"

text \<open>The body of \<^verbatim>\<open>for from > 0\<close>.\<close>

definition body :: "bool \<Rightarrow> state \<Rightarrow> step" where
  "body echo s =
     (if snd (match (p s) [[ETX]]) then Return [] ErrTerminated (s\<lparr>out := out s @ ''^C''\<rparr>)
      else
        (case scan_specials (specials echo) s [p s ! 0] False of
           Abt a \<Rightarrow> Abort a
         | Ret x e s' \<Rightarrow> Return x e s'
         | Scanned s' b partial found keep \<Rightarrow>
             if found \<and> \<not> keep then Continue s'
             else if partial then Break s'
             else
               (case match (p s') [ESC # ''[''] of
                  (c, True) \<Rightarrow>
                    (case cursorAt (drop c (p s')) of
                       Some (whole, rw, cl) \<Rightarrow>
                         (case Atoi rw of
                            None \<Rightarrow> Abort LogFatal
                          | Some r \<Rightarrow>
                              (case Atoi cl of
                                 None \<Rightarrow> Abort LogFatal
                               | Some k \<Rightarrow>
                                   Continue (s'\<lparr>p := shift (c + length whole) (p s'),
                                                 frm := frm s' - int (c + length whole),
                                                 atR := r, atC := k\<rparr>)))
                     | None \<Rightarrow> consume b s')
                | (c, False) \<Rightarrow> consume b s')))"

lemma fire_found: "fire fn m s b q = Scanned s' b' q' found keep \<Longrightarrow> found"
  by (auto simp: fire_def split: sum.splits prod.splits option.splits)

text \<open>The two loops over the table either find no code, and leave the state alone, or
  run exactly one handler, on the state they started with.\<close>

lemma scan_codes_result:
  "(\<exists>q. scan_codes fn codes s b partial = Scanned s b q False False) \<or>
   (\<exists>m q. m \<in> set codes \<and> int (length m) \<le> frm s \<and> prefix m (p s) \<and>
      scan_codes fn codes s b partial = fire fn m s b q)"
proof (induction codes arbitrary: partial)
  case Nil
  show ?case by simp
next
  case (Cons m ms)
  show ?case
  proof (cases "frm s < int (length m) \<or> \<not> prefix m (p s)")
    case True
    then show ?thesis
      using Cons.IH [of "partial \<or> prefix (take (nat (frm s)) (p s)) m"] Cons.IH [of partial]
      by (auto split: if_splits)
  next
    case False
    then have "m \<in> set (m # ms) \<and> int (length m) \<le> frm s \<and> prefix m (p s) \<and>
      scan_codes fn (m # ms) s b partial = fire fn m s b partial"
      by simp
    then show ?thesis by blast
  qed
qed

lemma scan_specials_result:
  "(\<exists>q. scan_specials tbl s b partial = Scanned s b q False False) \<or>
   (\<exists>codes fn m q. (codes, fn) \<in> set tbl \<and> m \<in> set codes \<and> int (length m) \<le> frm s \<and>
      prefix m (p s) \<and> scan_specials tbl s b partial = fire fn m s b q)"
proof (induction tbl arbitrary: partial)
  case Nil
  show ?case by simp
next
  case (Cons e tbl)
  obtain codes fn where e: "e = (codes, fn)" by (cases e)
  from scan_codes_result [of fn codes s b partial] show ?case
  proof (elim disjE exE conjE)
    fix q
    assume none: "scan_codes fn codes s b partial = Scanned s b q False False"
    then have "scan_specials (e # tbl) s b partial = scan_specials tbl s b q"
      by (simp add: e)
    with Cons.IH [of q] show ?thesis
      by (simp only: list.set) blast
  next
    fix m q
    assume hit: "m \<in> set codes" "int (length m) \<le> frm s" "prefix m (p s)"
      "scan_codes fn codes s b partial = fire fn m s b q"
    have "scan_specials (e # tbl) s b partial = fire fn m s b q"
      using hit(4) by (auto simp: e dest: fire_found split: scan.splits)
    with hit(1-3) e show ?thesis
      by (simp only: list.set) blast
  qed
qed

text \<open>
  A pass through the body that goes on with the loop has taken at least one byte out of
  \<^verbatim>\<open>p\<close>: no code of the table is empty, no handler touches \<^verbatim>\<open>from\<close>, and a cursor
  report has at least four bytes. This is what makes the loop \<^verbatim>\<open>for from > 0\<close> end.
\<close>

lemma handler_frame:
  "(codes, fn) \<in> set (specials echo) \<Longrightarrow> fn m s = Inr (s', x, e) \<Longrightarrow>
   frm s' = frm s \<and> p s' = p s \<and> h s' = h s"
  by (auto simp: specials_def delete_next_def delete_prev_def start_of_line_def end_of_line_def
      transpose_chars_def up_arrow_def down_arrow_def right_arrow_def left_arrow_def
      carriage_return_def Let_def split: if_splits)

lemma codes_nonempty:
  "(codes, fn) \<in> set (specials echo) \<Longrightarrow> m \<in> set codes \<Longrightarrow> m \<noteq> []"
  by (auto simp: specials_def)

lemma cursorAt_whole: "cursorAt t = Some (whole, rw, cl) \<Longrightarrow> 0 < length whole"
  by (auto simp: cursorAt_def Let_def split: list.splits if_splits)

lemma body_Continue_frm:
  assumes "body echo s = Continue s'"
  shows "frm s' < frm s"
  using scan_specials_result [of "specials echo" s "[p s ! 0]" False]
proof (elim disjE exE conjE)
  fix q
  assume "scan_specials (specials echo) s [p s ! 0] False = Scanned s [p s ! 0] q False False"
  with assms show ?thesis
    by (auto simp: body_def consume_def dest: cursorAt_whole
        split: if_splits prod.splits option.splits bool.splits)
next
  fix codes fn m q
  assume hit: "(codes, fn) \<in> set (specials echo)" "m \<in> set codes"
    "scan_specials (specials echo) s [p s ! 0] False = fire fn m s [p s ! 0] q"
  have "m \<noteq> []" using hit(1,2) by (rule codes_nonempty)
  with assms hit(3) handler_frame [OF hit(1), of m s] show ?thesis
    by (auto simp: body_def consume_def fire_def dest: cursorAt_whole
        split: if_splits prod.splits option.splits bool.splits sum.splits)
qed

text \<open>The loop \<^verbatim>\<open>for from > 0\<close>: it is left by its condition or by \<^verbatim>\<open>break\<close> (both \<open>Done\<close>),
  by a \<^verbatim>\<open>return\<close> of \<^verbatim>\<open>readString\<close> or by a panic.\<close>

datatype loop_exit = Done state | Returns string error state | Panics abort

function process :: "bool \<Rightarrow> state \<Rightarrow> loop_exit" where
  "process echo s =
     (if frm s > 0 then
        (case body echo s of
           Continue s' \<Rightarrow> process echo s'
         | Break s' \<Rightarrow> Done s'
         | Return x e s' \<Rightarrow> Returns x e s'
         | Abort a \<Rightarrow> Panics a)
      else Done s)"
  by pat_completeness auto
termination
  by (relation "measure (\<lambda>(echo, s). nat (frm s))") (auto dest: body_Continue_frm)

declare process.simps [simp del]

subsection \<open>Redrawing the line\<close>

text \<open>
  \<^verbatim>\<open>bytes.Runes\<close> of the Go library decodes UTF-8; a byte that starts no valid sequence is
  the rune U+FFFD of width one. Each rune is kept as the bytes \<^verbatim>\<open>string(u)\<close> prints.
\<close>

definition RuneError :: string where
  "RuneError = [CHR 0xEF, CHR 0xBF, CHR 0xBD]"

definition between :: "nat \<Rightarrow> nat \<Rightarrow> char \<Rightarrow> bool" where
  "between lo hi c = (lo \<le> of_char c \<and> (of_char c :: nat) \<le> hi)"

definition DecodeRune :: "string \<Rightarrow> string \<times> nat" where
  "DecodeRune t =
     (case t of
        [] \<Rightarrow> (RuneError, 0)
      | b0 # _ \<Rightarrow>
          (let x = (of_char b0 :: nat) in
           if x < 0x80 then ([b0], 1)
           else
             (let (sz, lo, hi) =
                (if 0xC2 \<le> x \<and> x \<le> 0xDF then (2, 0x80, 0xBF)
                 else if x = 0xE0 then (3, 0xA0, 0xBF)
                 else if x = 0xED then (3, 0x80, 0x9F)
                 else if 0xE1 \<le> x \<and> x \<le> 0xEF then (3, 0x80, 0xBF)
                 else if x = 0xF0 then (4, 0x90, 0xBF)
                 else if 0xF1 \<le> x \<and> x \<le> 0xF3 then (4, 0x80, 0xBF)
                 else if x = 0xF4 then (4, 0x80, 0x8F)
                 else (0::nat, 0::nat, 0::nat))
              in
                if sz = 0 \<or> length t < sz then (RuneError, 1)
                else if \<not> between lo hi (t ! 1) then (RuneError, 1)
                else if sz \<le> 2 then (take 2 t, 2)
                else if \<not> between 0x80 0xBF (t ! 2) then (RuneError, 1)
                else if sz \<le> 3 then (take 3 t, 3)
                else if \<not> between 0x80 0xBF (t ! 3) then (RuneError, 1)
                else (take 4 t, 4))))"

lemma DecodeRune_width: "t \<noteq> [] \<Longrightarrow> (u, l) = DecodeRune t \<Longrightarrow> 0 < l"
  by (auto simp: DecodeRune_def Let_def split: list.splits if_splits prod.splits)

function Runes :: "string \<Rightarrow> string list" where
  "Runes t = (if t = [] then [] else (case DecodeRune t of (u, l) \<Rightarrow> u # Runes (drop l t)))"
  by pat_completeness auto
termination
proof (relation "measure length")
  fix t :: string and u l
  assume "t \<noteq> []" "(u, l) = DecodeRune t"
  then have "0 < l" "0 < length t"
    by (auto dest: DecodeRune_width)
  then show "(drop l t, t) \<in> measure length"
    by simp
qed simp

declare Runes.simps [simp del]

text \<open>The loop that prints the runes, with the continuation break
  \<^verbatim>\<open>"\\\r\n"\<close> before each rune whose column is a multiple of \<open>w\<close>: the text printed
  and the number of breaks (\<^verbatim>\<open>lines\<close>).\<close>

fun emit_runes :: "int \<Rightarrow> int \<Rightarrow> int \<Rightarrow> string list \<Rightarrow> string \<times> int" where
  "emit_runes w cOffset i [] = ([], 0)"
| "emit_runes w cOffset i (u # us) =
     (case emit_runes w cOffset (i + 1) us of
        (t, l) \<Rightarrow>
          if (i + cOffset) smod w = 0 then ([CHR 0x5C, CR, LF] @ u @ t, l + 1)
          else (u @ t, l))"

text \<open>The block \<^verbatim>\<open>if newline == -1 && echo\<close> at the end of the outer loop. The
  remainder and the quotient by \<^verbatim>\<open>w\<close> panic when \<^verbatim>\<open>w\<close> is zero.\<close>

definition redraw :: "state \<Rightarrow> abort + state" where
  "redraw s =
     (let w = col s - 1; cOffset = atC s - 1 in
      if w = 0 then Inl DivideByZero
      else
        (let cD = (was s - 1 + cOffset) smod w;
             cAt = cD + 1 - cOffset;
             cUp = (was s - 1 + cOffset) sdiv w;
             o1 = up cUp @ left cAt;
             rs = Runes (unread s);
             n = int (length rs);
             cAt' = ((n - 1 + cOffset) smod w) - ((offset s - 1 + cOffset) smod w);
             cUp' = (n - 1 + cOffset) sdiv w - (offset s - 1 + cOffset) sdiv w
         in
           (case emit_runes w cOffset 0 rs of
              (txt, lines) \<Rightarrow>
                (let o2 = txt @ clearEOL;
                     o3 = (if wasLines s > lines then
                             concat (replicate (nat (wasLines s - lines)) (down 1 @ clearLine))
                             @ up (cUp' + wasLines s - lines)
                           else []);
                     o4 = up cUp' @ left cAt'
                 in Inr (s\<lparr>was := offset s, wasLines := lines,
                            out := out s @ o1 @ o2 @ o3 @ o4\<rparr>)))))"

subsection \<open>The outer loop and the entry points\<close>

text \<open>
  \<^verbatim>\<open>os.Stdin\<close> is a file: a \<^verbatim>\<open>Read\<close> gives bytes and no error, or an error and no
  bytes. The input of a run is the list of what is there at each \<^verbatim>\<open>Read\<close>; a
  \<^verbatim>\<open>Read\<close> takes what fits into \<^verbatim>\<open>p[from:]\<close> and leaves the rest for the next one.
  When the list is empty the call waits for input and never returns: \<open>Blocked\<close>.
\<close>

datatype read = Bytes string | Fails error

datatype 'a outcome = Blocked | Aborted abort | Returned string "error option" 'a

fun IndexByte :: "string \<Rightarrow> char \<Rightarrow> int" where
  "IndexByte [] c = - 1"
| "IndexByte (x # xs) c =
     (if x = c then 0 else (let i = IndexByte xs c in if i = - 1 then - 1 else i + 1))"

text \<open>The block \<^verbatim>\<open>if newline != -1\<close> at the head of the outer loop.\<close>

definition complete :: "bool \<Rightarrow> state \<Rightarrow> abort + (string \<times> state)" where
  "complete echo s =
     (if newline s + 1 < 0 \<or> int (length (unread s)) < newline s + 1
         \<or> frm s < 0 \<or> int (length (p s)) < frm s
      then Inl SliceBounds
      else
        (let line = take (nat (newline s + 1)) (unread s) in
         Inr (line,
              s\<lparr>h := (if echo then h s @ [line] else h s),
                unread := drop (nat (newline s + 1)) (unread s) @ take (nat (frm s)) (p s),
                offset := 0\<rparr>)))"

text \<open>\<^verbatim>\<open>n, err := os.Stdin.Read(p[from:])\<close> and \<^verbatim>\<open>from += n\<close>, for the bytes the \<^verbatim>\<open>Read\<close> got.\<close>

definition fill :: "string \<Rightarrow> state \<Rightarrow> state" where
  "fill got s =
     s\<lparr>p := take (nat (frm s)) (p s) @ got @ drop (nat (frm s) + length got) (p s),
       frm := frm s + int (length got)\<rparr>"

fun pending :: "read list \<Rightarrow> nat" where
  "pending [] = 0"
| "pending (Bytes bs # ins) = Suc (length bs + pending ins)"
| "pending (Fails e # ins) = Suc (pending ins)"

function readLoop :: "bool \<Rightarrow> state \<Rightarrow> read list \<Rightarrow> (state \<times> read list) outcome" where
  "readLoop echo s ins =
     (if newline s \<noteq> - 1 then
        (case complete echo s of
           Inl a \<Rightarrow> Aborted a
         | Inr (line, s') \<Rightarrow> Returned line None (s', ins))
      else if frm s < 0 \<or> int (length (p s)) < frm s then Aborted SliceBounds
      else
        (case ins of
           [] \<Rightarrow> Blocked
         | Fails e # rest \<Rightarrow> Returned [] (Some e) (s, rest)
         | Bytes bs # rest \<Rightarrow>
             (let space = length (p s) - nat (frm s) in
              if space = 0 \<and> bs \<noteq> [] then Blocked
              else
                (let ins' = (if length bs \<le> space then rest else Bytes (drop space bs) # rest)
                 in
                   (case process echo (fill (take space bs) s) of
                      Returns x e s' \<Rightarrow> Returned x (Some e) (s', ins')
                    | Panics a \<Rightarrow> Aborted a
                    | Done s2 \<Rightarrow>
                        if newline s2 = - 1 \<and> echo then
                          (case redraw s2 of
                             Inl a \<Rightarrow> Aborted a
                           | Inr s3 \<Rightarrow> readLoop echo s3 ins')
                        else readLoop echo s2 ins')))))"
  by pat_completeness auto
termination
  by (relation "measure (\<lambda>(echo, s, ins). pending ins)") auto

declare readLoop.simps [simp del]

text \<open>
  The terminal: \<open>tty\<close> is the size \<^verbatim>\<open>term.GetSize\<close> reports (columns, rows) when standard
  input is a terminal, and \<open>None\<close> when it is not.
\<close>

record world =
  stdin :: "read list"
  stdout :: string
  tty :: "(int \<times> int) option"

definition enter :: "bool \<Rightarrow> reader \<Rightarrow> world \<Rightarrow> state" where
  "enter echo r w =
     \<lparr>h = h r, unread = unread r, offset = offset r,
      row = (case tty w of None \<Rightarrow> row r | Some (c, l) \<Rightarrow> l),
      col = (case tty w of None \<Rightarrow> col r | Some (c, l) \<Rightarrow> c),
      atR = atR r, atC = atC r,
      pick = 0, p = replicate 20 (CHR 0x00), frm = 0,
      newline = IndexByte (unread r) LF, was = 0, wasLines = 0,
      out = stdout w @ (if tty w \<noteq> None \<and> echo then ESC # ''[6n'' else [])\<rparr>"

definition leave :: "state \<Rightarrow> reader" where
  "leave s = \<lparr>h = h s, unread = unread s, offset = offset s, row = row s, col = col s,
              atR = atR s, atC = atC s\<rparr>"

definition readString :: "bool \<Rightarrow> reader option \<Rightarrow> world \<Rightarrow> (reader option \<times> world) outcome" where
  "readString echo ro w =
     (case ro of
        None \<Rightarrow> Returned [] (Some ErrNoReader) (None, w)
      | Some r \<Rightarrow>
          (case readLoop echo (enter echo r w) (stdin w) of
             Blocked \<Rightarrow> Blocked
           | Aborted a \<Rightarrow> Aborted a
           | Returned x e (s, ins) \<Rightarrow>
               Returned x e (Some (leave s), w\<lparr>stdin := ins, stdout := out s\<rparr>)))"

definition ReadString :: "reader option \<Rightarrow> world \<Rightarrow> (reader option \<times> world) outcome" where
  "ReadString ro w = readString True ro w"

definition ReadPassword :: "reader option \<Rightarrow> world \<Rightarrow> (reader option \<times> world) outcome" where
  "ReadPassword ro w = readString False ro w"

subsection \<open>Pressing a key several times\<close>

text \<open>The same handler run \<open>k\<close> times in a row, as \<open>k\<close> presses of one key dispatch it.\<close>

fun press :: "nat \<Rightarrow> (state \<Rightarrow> abort + (state \<times> string option \<times> error option)) \<Rightarrow> state
    \<Rightarrow> abort + state" where
  "press 0 f s = Inr s"
| "press (Suc k) f s = (case f s of Inl a \<Rightarrow> Inl a | Inr (s', x, e) \<Rightarrow> press k f s')"

text \<open>Every line \<^verbatim>\<open>readString\<close> stores ends with its line feed, so no entry is empty.\<close>

definition entries_ok :: "string list \<Rightarrow> bool" where
  "entries_ok hs = list_all (\<lambda>l. l \<noteq> []) hs"

text \<open>An echoed read that has the history \<^verbatim>\<open>ls\<close>, \<^verbatim>\<open>pwd\<close> and the letter \<^verbatim>\<open>a\<close> typed so far.\<close>

definition typed_a :: state where
  "typed_a =
     (enter True (NewReader\<lparr>h := [''ls'' @ [LF], ''pwd'' @ [LF]]\<rparr>)
        \<lparr>stdin = [], stdout = [], tty = None\<rparr>)\<lparr>unread := ''a'', offset := 1\<rparr>"

fun state_of :: "step \<Rightarrow> state option" where
  "state_of (Continue s) = Some s"
| "state_of (Break s) = Some s"
| "state_of (Return x e s) = Some s"
| "state_of (Abort a) = None"

fun exit_state :: "loop_exit \<Rightarrow> state option" where
  "exit_state (Done s) = Some s"
| "exit_state (Returns x e s) = Some s"
| "exit_state (Panics a) = None"

text \<open>The invariant of the data model: the cursor is inside the line.\<close>

definition cursor_ok :: "'a reader_scheme \<Rightarrow> bool" where
  "cursor_ok r = (0 \<le> offset r \<and> offset r \<le> int (length (unread r)))"

text \<open>The same read after a chunk of editing keys has arrived: backspace, \<^verbatim>\<open>x\<close>, \<^verbatim>\<open>y\<close>,
  cursor-left, transpose, jump-start, cursor-right, jump-end, backspace.\<close>

definition keys_typed :: state where
  "keys_typed =
     fill (DEL # ''xy'' @ ESC # ''[D'' @ [DC4, SOH, ESC] @ ''[C'' @ [ENQ, BS]) typed_a"

text \<open>The same read when one key has just arrived: delete-forward with the cursor at the
  end of the line, delete-forward (as an escape sequence) with the cursor at its start, and
  the interrupt byte.\<close>

definition eot_at_end :: state where
  "eot_at_end = fill [EOT] typed_a"

definition del_at_start :: state where
  "del_at_start = fill (ESC # ''[3~'') (typed_a\<lparr>offset := 0\<rparr>)"

definition etx_typed :: state where
  "etx_typed = fill [ETX] typed_a"

text \<open>A Reader that has read the line \<^verbatim>\<open>ls\<close>, and the input of a password typed in two
  chunks, with an up-arrow in the middle and a carriage return at the end.\<close>

definition after_ls :: reader where
  "after_ls = NewReader\<lparr>h := [''ls'' @ [LF]]\<rparr>"

definition secret_typed :: world where
  "secret_typed =
     \<lparr>stdin = [Bytes ''sec'', Bytes (ESC # ''[Aret'' @ [CR])], stdout = [], tty = None\<rparr>"





text \<open>
  A terminal of eleven columns, so that the redraw wraps at \<^verbatim>\<open>w = r.col - 1 = 10\<close>, and
  its answer to the request for the cursor position: row 5, column 1, which makes the
  zero-based column of the prompt, \<^verbatim>\<open>cOffset\<close>, zero.
\<close>

definition eleven_wide :: world where
  "eleven_wide = \<lparr>stdin = [], stdout = [], tty = Some (11, 24)\<rparr>"

definition cursor_report :: string where
  "cursor_report = ESC # ''[5;1R''"

text \<open>The continuation break \<^verbatim>\<open>"\\\r\n"\<close> the redraw prints where the line wraps.\<close>

definition wrap_break :: string where
  "wrap_break = [CHR 0x5C, CR, LF]"

text \<open>
  \<open>reaches echo s t\<close>: the loop \<^verbatim>\<open>for from > 0\<close>, started in \<open>s\<close>, is in \<open>t\<close> at the head
  of one of its passes.
\<close>

inductive reaches :: "bool \<Rightarrow> state \<Rightarrow> state \<Rightarrow> bool" for echo where
  here: "reaches echo s s"
| pass: "0 < frm s \<Longrightarrow> body echo s = Continue t \<Longrightarrow> reaches echo t u \<Longrightarrow> reaches echo s u"

lemmas handler_defs = delete_next_def delete_prev_def start_of_line_def end_of_line_def
  transpose_chars_def up_arrow_def down_arrow_def right_arrow_def left_arrow_def
  carriage_return_def

section \<open>History queries\<close>

lemma History_in_range:
  "0 \<le> n \<Longrightarrow> n < int (length (h r)) \<Longrightarrow>
   History (Some r) n = Inr (rev (h r) ! nat n, int (length (h r)))"
proof -
  assume a: "0 \<le> n" "n < int (length (h r))"
  then have "nat (int (length (h r)) - 1 - n) = length (h r) - Suc (nat n)"
    by linarith
  with a show ?thesis
    by (simp add: History_def Let_def rev_nth)
qed

text \<open>
  C1. The claim asks that \<^verbatim>\<open>History(n)\<close> return an empty string and the total for every
  out-of-range \<open>n\<close>, \<open>n = N\<close> included. The guard of the source is \<^verbatim>\<open>m < n\<close>, so at
  \<open>n = N\<close> the index \<^verbatim>\<open>r.h[-1]\<close> is evaluated and the call panics, whatever the history
  holds (also on a new Reader, where \<open>N = 0\<close>).
\<close>

theorem History_at_total_panics:
  "History (Some r) (int (length (h r))) = Inl IndexOutOfRange"
  by (simp add: History_def)

section \<open>Recalling history\<close>

lemma press_up:
  "entries_ok (h s) \<Longrightarrow> 0 \<le> pick s \<Longrightarrow> nat (pick s) + k \<le> length (h s) \<Longrightarrow>
   \<exists>s1. press k (up_arrow True m) s = Inr s1 \<and> h s1 = h s \<and> pick s1 = pick s + int k \<and>
     (0 < k \<longrightarrow> unread s1 = butlast (rev (h s) ! (nat (pick s) + k - 1)) \<and>
        offset s1 = int (length (unread s1)))"
proof (induction k arbitrary: s)
  case 0
  then show ?case by simp
next
  case (Suc k)
  let ?i = "int (length (h s)) - pick s - 1"
  let ?s' = "s\<lparr>offset := int (length (butlast (h s ! nat ?i))), unread := butlast (h s ! nat ?i),
     pick := pick s + 1\<rparr>"
  have i: "nat ?i < length (h s)" "0 \<le> ?i" "?i < int (length (h s))" using Suc.prems by auto
  have ne: "h s ! nat ?i \<noteq> []"
    using Suc.prems(1) i(1) by (simp add: entries_ok_def list_all_length)
  have step: "up_arrow True m s = Inr (?s', None, None)"
    using Suc.prems i ne by (simp add: up_arrow_def Let_def)
  have "\<exists>s1. press k (up_arrow True m) ?s' = Inr s1 \<and> h s1 = h ?s' \<and> pick s1 = pick ?s' + int k \<and>
     (0 < k \<longrightarrow> unread s1 = butlast (rev (h ?s') ! (nat (pick ?s') + k - 1)) \<and>
        offset s1 = int (length (unread s1)))"
    by (rule Suc.IH) (use Suc.prems in auto)
  then obtain s1 where s1: "press k (up_arrow True m) ?s' = Inr s1" "h s1 = h s"
    "pick s1 = pick s + 1 + int k"
    "0 < k \<longrightarrow> unread s1 = butlast (rev (h s) ! (nat (pick s + 1) + k - 1)) \<and>
        offset s1 = int (length (unread s1))"
    by auto
  have idx: "rev (h s) ! nat (pick s) = h s ! nat ?i"
  proof -
    have "nat ?i = length (h s) - Suc (nat (pick s))" using Suc.prems by linarith
    moreover have "nat (pick s) < length (h s)" using Suc.prems by linarith
    ultimately show ?thesis by (simp add: rev_nth)
  qed
  show ?case
  proof (cases "k = 0")
    case True
    then have "press (Suc k) (up_arrow True m) s = Inr ?s'"
      by (simp add: step)
    with True idx show ?thesis
      by (intro exI [of _ ?s']) simp
  next
    case False
    moreover have "nat (pick s + 1) + k - 1 = nat (pick s) + Suc k - 1"
      using Suc.prems(2) by linarith
    ultimately show ?thesis using step s1 by simp
  qed
qed

lemma press_down:
  "entries_ok (h s) \<Longrightarrow> pick s = int k \<Longrightarrow> 0 < k \<Longrightarrow> k \<le> length (h s) \<Longrightarrow>
   \<exists>s2. press k (down_arrow True m) s = Inr s2 \<and> h s2 = h s \<and> pick s2 = 0 \<and>
      unread s2 = [] \<and> offset s2 = 0"
proof (induction k arbitrary: s)
  case 0
  then show ?case by simp
next
  case (Suc k)
  show ?case
  proof (cases "k = 0")
    case True
    with Suc.prems show ?thesis
      by (simp add: down_arrow_def Let_def)
  next
    case False
    let ?i = "int (length (h s)) - (pick s - 2) - 1"
    let ?s' = "s\<lparr>pick := pick s - 1, offset := int (length (butlast (h s ! nat ?i))),
      unread := butlast (h s ! nat ?i)\<rparr>"
    have i: "nat ?i < length (h s)" "0 \<le> ?i" "?i < int (length (h s))" "0 \<le> pick s - 2"
      using Suc.prems False by auto
    have ne: "h s ! nat ?i \<noteq> []"
      using Suc.prems(1) i(1) by (simp add: entries_ok_def list_all_length)
    have step: "down_arrow True m s = Inr (?s', None, None)"
      using i ne by (simp add: down_arrow_def Let_def)
    have "\<exists>s2. press k (down_arrow True m) ?s' = Inr s2 \<and> h s2 = h ?s' \<and> pick s2 = 0 \<and>
      unread s2 = [] \<and> offset s2 = 0"
      by (rule Suc.IH) (use Suc.prems False in auto)
    with step show ?thesis by auto
  qed
qed

text \<open>
  C2, as the claim states it, fails: the up-arrow handler overwrites \<^verbatim>\<open>r.unread\<close> and
  nothing keeps the text that was there. With the letter \<^verbatim>\<open>a\<close> typed, one recall-older
  shows \<^verbatim>\<open>pwd\<close> and one recall-newer leaves the line empty, not \<^verbatim>\<open>a\<close>.
\<close>

theorem recall_round_trip_loses_typed_text:
  "unread typed_a = ''a'' \<and>
   press 1 (up_arrow True (ESC # ''[A'')) typed_a
     = Inr (typed_a\<lparr>offset := 3, unread := ''pwd'', pick := 1\<rparr>) \<and>
   press 1 (down_arrow True (ESC # ''[B'')) (typed_a\<lparr>offset := 3, unread := ''pwd'', pick := 1\<rparr>)
     = Inr (typed_a\<lparr>offset := 0, unread := [], pick := 0\<rparr>)"
  by (simp add: typed_a_def enter_def NewReader_def up_arrow_def down_arrow_def Let_def)

text \<open>
  C2, amended. In an echoed read with recall depth 0 and a history of non-empty entries,
  \<open>k\<close> recall-older (\<open>1 \<le> k \<le>\<close> the history length) show the \<open>k\<close>-th most recent
  entry without its terminator, and \<open>k\<close> recall-newer after them leave the line empty,
  the cursor at 0 and the recall depth at 0, whatever the line held before.
\<close>

theorem recall_round_trip_clears:
  assumes "entries_ok (h s)" "pick s = 0" "0 < k" "k \<le> length (h s)"
  shows "\<exists>s1 s2. press k (up_arrow True m) s = Inr s1 \<and>
           unread s1 = butlast (rev (h s) ! (k - 1)) \<and>
           press k (down_arrow True m') s1 = Inr s2 \<and>
           unread s2 = [] \<and> offset s2 = 0 \<and> pick s2 = 0"
proof -
  from press_up [of s k m] assms obtain s1 where
    s1: "press k (up_arrow True m) s = Inr s1" "h s1 = h s" "pick s1 = int k"
      "unread s1 = butlast (rev (h s) ! (k - 1))"
    by auto
  from press_down [of s1 k m'] s1 assms obtain s2 where
    "press k (down_arrow True m') s1 = Inr s2" "unread s2 = []" "offset s2 = 0" "pick s2 = 0"
    by auto
  with s1 show ?thesis by blast
qed


theorem recall_round_trip_clears_witness:
  "entries_ok (h typed_a) \<and> pick typed_a = 0 \<and> (0::nat) < 2 \<and> 2 \<le> length (h typed_a) \<and>
   (\<exists>s1 s2. press 2 (up_arrow True (ESC # ''[A'')) typed_a = Inr s1 \<and>
      unread s1 = ''ls'' \<and>
      press 2 (down_arrow True (ESC # ''[B'')) s1 = Inr s2 \<and>
      unread s2 = [] \<and> offset s2 = 0 \<and> pick s2 = 0)"
proof -
  have a: "entries_ok (h typed_a)" "pick typed_a = 0" "(0::nat) < 2" "2 \<le> length (h typed_a)"
    by (simp_all add: typed_a_def enter_def NewReader_def entries_ok_def)
  have b: "butlast (rev (h typed_a) ! (2 - 1)) = ''ls''"
    by (simp add: typed_a_def enter_def NewReader_def)
  from recall_round_trip_clears [OF a, of "ESC # ''[A''" "ESC # ''[B''"] a b show ?thesis
    by simp
qed

section \<open>What the loops keep\<close>

lemma scan_case_fire:
  "(case fire fn m s b q of
      Ret x e s' \<Rightarrow> Ret x e s'
    | Abt a \<Rightarrow> Abt a
    | Scanned s' b' partial' found keep \<Rightarrow>
        if found then Scanned s' b' partial' found keep else g s' b' partial') = fire fn m s b q"
  by (auto dest: fire_found split: scan.splits)

lemma replicate_20:
  "replicate 20 c = [c, c, c, c, c, c, c, c, c, c, c, c, c, c, c, c, c, c, c, c]"
  by (simp add: eval_nat_numeral)

lemmas eval_defs = replicate_20 keys_typed_def eot_at_end_def del_at_start_def etx_typed_def ReadString_def ReadPassword_def readString_def enter_def leave_def NewReader_def
  readLoop.simps process.simps body_def specials_def fire_def consume_def complete_def shift_def
  fill_def handler_defs redraw_def Let_def cursorAt_def is_digit_def Atoi_def up_def left_def
  down_def fmt_d_def digits.simps clearEOL_def clearLine_def signed_divide_int_def
  signed_modulo_int_def Runes.simps DecodeRune_def typed_a_def

lemmas eval_congs = if_weak_cong step.case_cong_weak loop_exit.case_cong_weak scan.case_cong_weak
  list.case_cong_weak read.case_cong_weak sum.case_cong_weak outcome.case_cong_weak
  prod.case_cong_weak option.case_cong_weak

lemma handler_keep:
  "(codes, fn) \<in> set (specials echo) \<Longrightarrow> fn m s = Inr (s', Some x, None) \<Longrightarrow> x = [LF]"
  by (auto simp: specials_def handler_defs Let_def split: if_splits)

text \<open>A property of the history, the line and the cursor that every handler and the
  insertion of one byte keep is kept by a pass through the loop body.\<close>

lemma body_preserves:
  fixes P :: "string list \<Rightarrow> string \<Rightarrow> int \<Rightarrow> bool"
  assumes hand: "\<And>codes fn m t t' x e. (codes, fn) \<in> set (specials echo) \<Longrightarrow>
        P (h t) (unread t) (offset t) \<Longrightarrow> fn m t = Inr (t', x, e) \<Longrightarrow>
        P (h t') (unread t') (offset t')"
    and cons: "\<And>b t t'. P (h t) (unread t) (offset t) \<Longrightarrow> b \<noteq> [] \<Longrightarrow>
        consume b t = Continue t' \<Longrightarrow> P (h t') (unread t') (offset t')"
    and Q: "P (h s) (unread s) (offset s)"
    and res: "state_of (body echo s) = Some s'"
  shows "P (h s') (unread s') (offset s')"
proof (cases "snd (match (p s) [[ETX]])")
  case True
  with res Q show ?thesis by (auto simp: body_def)
next
  case False
  have after: "P (h t') (unread t') (offset t')"
    if "P (h t) (unread t) (offset t)" "b \<noteq> []" and
      "state_of (if partial then Break t
         else (case match (p t) [ESC # ''[''] of
                  (c, True) \<Rightarrow>
                    (case cursorAt (drop c (p t)) of
                       Some (whole, rw, cl) \<Rightarrow>
                         (case Atoi rw of
                            None \<Rightarrow> Abort LogFatal
                          | Some r \<Rightarrow>
                              (case Atoi cl of
                                 None \<Rightarrow> Abort LogFatal
                               | Some k \<Rightarrow>
                                   Continue (t\<lparr>p := shift (c + length whole) (p t),
                                                 frm := frm t - int (c + length whole),
                                                 atR := r, atC := k\<rparr>)))
                     | None \<Rightarrow> consume b t)
                | (c, False) \<Rightarrow> consume b t)) = Some t'"
    for t t' b partial
  proof (cases "consume b t")
    case (Continue u)
    then have "P (h u) (unread u) (offset u)"
      using cons [OF that(1,2)] by simp
    with that Continue show ?thesis
      by (auto split: if_splits prod.splits option.splits bool.splits)
  qed (use that in \<open>auto simp: consume_def split: if_splits prod.splits option.splits bool.splits\<close>)
  from scan_specials_result [of "specials echo" s "[p s ! 0]" False] show ?thesis
  proof (elim disjE exE conjE)
    fix q
    assume sc: "scan_specials (specials echo) s [p s ! 0] False = Scanned s [p s ! 0] q False False"
    show ?thesis
      by (rule after [OF Q, of "[p s ! 0]" q]) (use res sc False in \<open>simp_all add: body_def\<close>)
  next
    fix codes fn m q
    assume hit: "(codes, fn) \<in> set (specials echo)" "m \<in> set codes"
      and sc: "scan_specials (specials echo) s [p s ! 0] False = fire fn m s [p s ! 0] q"
    show ?thesis
    proof (cases "fn m s")
      case (Inl a)
      then have "fire fn m s [p s ! 0] q = Abt a" by (simp add: fire_def)
      with res sc False show ?thesis
        by (simp add: body_def)
    next
      case (Inr r)
      obtain t x e where r: "r = (t, x, e)" by (cases r)
      have Pt: "P (h t) (unread t) (offset t)"
        using hand [OF hit(1) Q] Inr r by simp
      show ?thesis
      proof (cases e)
        case (Some err)
        then have "fire fn m s [p s ! 0] q = Ret (case x of None \<Rightarrow> [] | Some y \<Rightarrow> y) err t"
          using Inr r by (cases x) (simp_all add: fire_def)
        with res sc False Pt show ?thesis
          by (simp add: body_def)
      next
        case None
        show ?thesis
        proof (cases x)
          case xn: None
          then have "fire fn m s [p s ! 0] q =
            Scanned (t\<lparr>p := shift (length m) (p t), frm := frm t - int (length m)\<rparr>)
              [p s ! 0] q True False"
            using Inr r None by (simp add: fire_def)
          with res sc False Pt show ?thesis
            by (auto simp: body_def)
        next
          case (Some y)
          have y: "y = [LF]"
            using handler_keep [OF hit(1)] Inr r None Some by simp
          have fire: "fire fn m s [p s ! 0] q = Scanned t [LF] q True True"
            using Inr r None Some y by (simp add: fire_def)
          show ?thesis
            by (rule after [OF Pt, of "[LF]" q]) (use res sc fire False in \<open>simp_all add: body_def\<close>)
        qed
      qed
    qed
  qed
qed

lemma process_preserves:
  fixes P :: "string list \<Rightarrow> string \<Rightarrow> int \<Rightarrow> bool"
  assumes hand: "\<And>codes fn m t t' x e. (codes, fn) \<in> set (specials echo) \<Longrightarrow>
        P (h t) (unread t) (offset t) \<Longrightarrow> fn m t = Inr (t', x, e) \<Longrightarrow>
        P (h t') (unread t') (offset t')"
    and cons: "\<And>b t t'. P (h t) (unread t) (offset t) \<Longrightarrow> b \<noteq> [] \<Longrightarrow>
        consume b t = Continue t' \<Longrightarrow> P (h t') (unread t') (offset t')"
  shows "P (h s) (unread s) (offset s) \<Longrightarrow> exit_state (process echo s) = Some s' \<Longrightarrow>
    P (h s') (unread s') (offset s')"
proof (induction "nat (frm s)" arbitrary: s rule: less_induct)
  case less
  have step: "P (h t) (unread t) (offset t)" if "state_of (body echo s) = Some t" for t
    using hand cons less.prems(1) that by (rule body_preserves [where P = P])
  show ?case
  proof (cases "0 < frm s")
    case False
    with less.prems show ?thesis by (simp add: process.simps)
  next
    case True
    show ?thesis
    proof (cases "body echo s")
      case (Continue t)
      have "P (h t) (unread t) (offset t)"
        by (rule step) (simp add: Continue)
      moreover have "exit_state (process echo t) = Some s'"
        using less.prems(2) True Continue by (subst (asm) process.simps) simp
      moreover have "nat (frm t) < nat (frm s)"
        using body_Continue_frm [OF Continue] True by simp
      ultimately show ?thesis
        by (rule less.hyps [rotated])
    next
      case (Break t)
      have "P (h t) (unread t) (offset t)"
        by (rule step) (simp add: Break)
      moreover have "s' = t"
        using less.prems(2) True Break by (subst (asm) process.simps) simp
      ultimately show ?thesis by simp
    next
      case (Return x e t)
      have "P (h t) (unread t) (offset t)"
        by (rule step) (simp add: Return)
      moreover have "s' = t"
        using less.prems(2) True Return by (subst (asm) process.simps) simp
      ultimately show ?thesis by simp
    next
      case (Abort a)
      with less.prems(2) True show ?thesis by (subst (asm) process.simps) simp
    qed
  qed
qed

lemma redraw_frame:
  "redraw s = Inr s' \<Longrightarrow> s' = s\<lparr>was := was s', wasLines := wasLines s', out := out s'\<rparr>"
  by (auto simp: redraw_def Let_def split: if_splits prod.splits)

lemma readLoop_Bytes:
  assumes "newline s = - 1" "0 \<le> frm s" "frm s \<le> int (length (p s))"
    and "length (p s) - nat (frm s) = 0 \<longrightarrow> bs = []"
  shows "readLoop echo s (Bytes bs # rest) =
          (case process echo (fill (take (length (p s) - nat (frm s)) bs) s) of
              Returns x e s' \<Rightarrow>
                Returned x (Some e)
                  (s', if length bs \<le> length (p s) - nat (frm s) then rest
                       else Bytes (drop (length (p s) - nat (frm s)) bs) # rest)
            | Panics a \<Rightarrow> Aborted a
            | Done s2 \<Rightarrow>
                if newline s2 = - 1 \<and> echo then
                  (case redraw s2 of
                     Inl a \<Rightarrow> Aborted a
                   | Inr s3 \<Rightarrow>
                       readLoop echo s3
                         (if length bs \<le> length (p s) - nat (frm s) then rest
                          else Bytes (drop (length (p s) - nat (frm s)) bs) # rest))
                else
                  readLoop echo s2
                    (if length bs \<le> length (p s) - nat (frm s) then rest
                     else Bytes (drop (length (p s) - nat (frm s)) bs) # rest))"
  using assms by (subst readLoop.simps) (auto simp: Let_def)

lemma readLoop_preserves:
  fixes P :: "string list \<Rightarrow> string \<Rightarrow> int \<Rightarrow> bool"
  assumes hand: "\<And>codes fn m t t' x e. (codes, fn) \<in> set (specials echo) \<Longrightarrow>
        P (h t) (unread t) (offset t) \<Longrightarrow> fn m t = Inr (t', x, e) \<Longrightarrow>
        P (h t') (unread t') (offset t')"
    and cons: "\<And>b t t'. P (h t) (unread t) (offset t) \<Longrightarrow> b \<noteq> [] \<Longrightarrow>
        consume b t = Continue t' \<Longrightarrow> P (h t') (unread t') (offset t')"
    and compl: "\<And>t line t'. P (h t) (unread t) (offset t) \<Longrightarrow>
        complete echo t = Inr (line, t') \<Longrightarrow> P (h t') (unread t') (offset t')"
  shows "P (h s) (unread s) (offset s) \<Longrightarrow> readLoop echo s ins = Returned x e (s', ins') \<Longrightarrow>
    P (h s') (unread s') (offset s')"
proof (induction "pending ins" arbitrary: s ins rule: less_induct)
  case less
  note Q = less.prems(1) and res = less.prems(2)
  show ?case
  proof (cases "newline s \<noteq> - 1")
    case True
    with res Q compl show ?thesis
      by (subst (asm) readLoop.simps) (auto split: sum.splits)
  next
    case nl: False
    show ?thesis
    proof (cases ins)
      case Nil
      with res nl show ?thesis
        by (subst (asm) readLoop.simps) (simp split: if_splits)
    next
      case (Cons i rest)
      show ?thesis
      proof (cases i)
        case (Fails err)
        with res nl Cons Q show ?thesis
          by (subst (asm) readLoop.simps) (auto split: if_splits)
      next
        case (Bytes bs)
        define space where "space = length (p s) - nat (frm s)"
        define ins1 where "ins1 = (if length bs \<le> space then rest else Bytes (drop space bs) # rest)"
        define s1 where "s1 = fill (take space bs) s"
        have ok: "\<not> (frm s < 0 \<or> int (length (p s)) < frm s)" "\<not> (space = 0 \<and> bs \<noteq> [])"
          using res nl Cons Bytes
          by (subst (asm) readLoop.simps; auto simp: space_def split: if_splits)+
        have unfold: "readLoop echo s ins =
          (case process echo s1 of
              Returns x e s' \<Rightarrow> Returned x (Some e) (s', ins1)
            | Panics a \<Rightarrow> Aborted a
            | Done s2 \<Rightarrow>
                if newline s2 = - 1 \<and> echo then
                  (case redraw s2 of
                     Inl a \<Rightarrow> Aborted a
                   | Inr s3 \<Rightarrow> readLoop echo s3 ins1)
                else readLoop echo s2 ins1)"
          unfolding Cons Bytes space_def ins1_def s1_def
          by (rule readLoop_Bytes) (use nl ok in \<open>auto simp: space_def\<close>)
        have Q1: "P (h s1) (unread s1) (offset s1)"
          using Q by (simp add: s1_def fill_def)
        have dec: "pending ins1 < pending ins"
          using ok(2) by (auto simp: ins1_def Cons Bytes)
        show ?thesis
        proof (cases "process echo s1")
          case (Returns y err t)
          then have "P (h t) (unread t) (offset t)"
            using process_preserves [where P = P and s' = t, OF hand cons Q1] by simp
          with res unfold Returns show ?thesis by simp
        next
          case (Panics a)
          with res unfold show ?thesis by simp
        next
          case (Done s2)
          then have Q2: "P (h s2) (unread s2) (offset s2)"
            using process_preserves [where P = P and s' = s2, OF hand cons Q1] by simp
          show ?thesis
          proof (cases "newline s2 = - 1 \<and> echo")
            case False
            with res unfold Done have "readLoop echo s2 ins1 = Returned x e (s', ins')"
              by simp
            with dec Q2 show ?thesis by (rule less.hyps)
          next
            case True
            show ?thesis
            proof (cases "redraw s2")
              case (Inl a)
              with res unfold Done True show ?thesis by simp
            next
              case (Inr s3)
              from redraw_frame [OF Inr] Q2 have Q3: "P (h s3) (unread s3) (offset s3)"
                by (metis (no_types) reader.select_convs state.surjective state.update_convs
                    reader.surjective)
              from res unfold Done True Inr have "readLoop echo s3 ins1 = Returned x e (s', ins')"
                by simp
              with dec Q3 show ?thesis by (rule less.hyps)
            qed
          qed
        qed
      qed
    qed
  qed
qed

section \<open>The cursor stays inside the line\<close>

lemma handlers_cursor_ok:
  "(codes, fn) \<in> set (specials echo) \<Longrightarrow> cursor_ok t \<Longrightarrow> fn m t = Inr (t', x, e) \<Longrightarrow>
   cursor_ok t'"
  by (auto simp: specials_def handler_defs cursor_ok_def Let_def split: if_splits)

lemma consume_cursor_ok:
  "cursor_ok t \<Longrightarrow> b \<noteq> [] \<Longrightarrow> consume b t = Continue t' \<Longrightarrow> cursor_ok t'"
  by (cases b) (auto simp: consume_def cursor_ok_def split: if_splits)

lemma complete_cursor_ok: "complete echo t = Inr (line, t') \<Longrightarrow> cursor_ok t'"
  by (auto simp: complete_def cursor_ok_def Let_def split: if_splits)


text \<open>
  C3. With \<open>0 \<le> cursorOffset \<le> len(pendingLine)\<close> before: every handler of the
  command table that returns a state keeps it (delete-forward, delete-backward,
  jump-start, jump-end, transpose, recall-older, recall-newer, cursor-right, cursor-left,
  line-terminate); the insertion of a byte keeps it; so does every pass through the loop
  body, whichever command or literal byte it dispatches, every run of the loop over the
  bytes of a chunk, and the whole of the outer loop up to the return of the read.
\<close>

theorem cursor_stays_in_line:
  assumes "cursor_ok s"
  shows "(\<forall>(codes, fn) \<in> set (specials echo). \<forall>m s' x e. fn m s = Inr (s', x, e) \<longrightarrow> cursor_ok s') \<and>
    (\<forall>b s'. b \<noteq> [] \<longrightarrow> consume b s = Continue s' \<longrightarrow> cursor_ok s') \<and>
    (\<forall>s'. state_of (body echo s) = Some s' \<longrightarrow> cursor_ok s') \<and>
    (\<forall>s'. exit_state (process echo s) = Some s' \<longrightarrow> cursor_ok s') \<and>
    (\<forall>ins x e s' ins'. readLoop echo s ins = Returned x e (s', ins') \<longrightarrow> cursor_ok s')"
proof -
  define P :: "string list \<Rightarrow> string \<Rightarrow> int \<Rightarrow> bool"
    where "P = (\<lambda>hs u k. 0 \<le> k \<and> k \<le> int (length u))"
  have P: "P (h t) (unread t) (offset t) = cursor_ok t" for t :: state
    by (simp add: P_def cursor_ok_def)
  have P0: "P (h s) (unread s) (offset s)"
    using assms by (simp add: P)
  have hand: "P (h t') (unread t') (offset t')"
    if "(codes, fn) \<in> set (specials echo)" "P (h t) (unread t) (offset t)"
      "fn m t = Inr (t', x, e)" for codes fn m t t' x e
    using handlers_cursor_ok [OF that(1) _ that(3)] that(2) by (simp add: P)
  have cons: "P (h t') (unread t') (offset t')"
    if "P (h t) (unread t) (offset t)" "b \<noteq> []" "consume b t = Continue t'" for b t t'
    using consume_cursor_ok [OF _ that(2,3)] that(1) by (simp add: P)
  have compl: "P (h t') (unread t') (offset t')"
    if "P (h t) (unread t) (offset t)" "complete echo t = Inr (line, t')" for t line t'
    using complete_cursor_ok [OF that(2)] by (simp add: P)
  have 1: "\<forall>(codes, fn) \<in> set (specials echo). \<forall>m s' x e. fn m s = Inr (s', x, e) \<longrightarrow> cursor_ok s'"
    using assms handlers_cursor_ok by blast
  have 2: "\<forall>b s'. b \<noteq> [] \<longrightarrow> consume b s = Continue s' \<longrightarrow> cursor_ok s'"
    using assms consume_cursor_ok by blast
  have 3: "cursor_ok s'" if "state_of (body echo s) = Some s'" for s'
    using body_preserves [of echo P s s', OF hand cons P0 that] by (simp add: P)
  have 4: "cursor_ok s'" if "exit_state (process echo s) = Some s'" for s'
    using process_preserves [of echo P s s', OF hand cons P0 that] by (simp add: P)
  have 5: "cursor_ok s'" if "readLoop echo s ins = Returned x e (s', ins')" for ins x e s' ins'
    using readLoop_preserves [of echo P s ins x e s' ins', OF hand cons compl P0 that]
    by (simp add: P)
  from 1 2 3 4 5 show ?thesis by blast
qed


theorem cursor_stays_in_line_witness:
  "cursor_ok keys_typed \<and>
   exit_state (process True keys_typed)
     = Some (keys_typed\<lparr>unread := ''y'', offset := 1, p := p typed_a, frm := 0\<rparr>) \<and>
   cursor_ok (keys_typed\<lparr>unread := ''y'', offset := 1, p := p typed_a, frm := 0\<rparr>)"
proof -
  have a: "cursor_ok keys_typed"
    by (simp add: cursor_ok_def eval_defs)
  have b: "exit_state (process True keys_typed)
     = Some (keys_typed\<lparr>unread := ''y'', offset := 1, p := p typed_a, frm := 0\<rparr>)"
    by (simp add: eval_defs cong: eval_congs)
  from cursor_stays_in_line [OF a, of True] a b show ?thesis
    by blast
qed

section \<open>Returns out of the dispatch loop\<close>

lemma reaches_process: "reaches echo s t \<Longrightarrow> process echo s = process echo t"
proof (induction rule: reaches.induct)
  case (here s)
  show ?case by simp
next
  case (pass s t u)
  then show ?case by (subst process.simps) simp
qed

lemma readLoop_returns:
  assumes "newline s0 = - 1" "0 \<le> frm s0" "frm s0 \<le> int (length (p s0))"
    and "length (p s0) - nat (frm s0) = 0 \<longrightarrow> bs = []"
    and "reaches echo (fill (take (length (p s0) - nat (frm s0)) bs) s0) s"
    and "process echo s = Returns x e s'"
  shows "readLoop echo s0 (Bytes bs # rest) =
    Returned x (Some e)
      (s', if length bs \<le> length (p s0) - nat (frm s0) then rest
           else Bytes (drop (length (p s0) - nat (frm s0)) bs) # rest)"
  using assms(6) reaches_process [OF assms(5)]
  by (simp add: readLoop_Bytes [OF assms(1-4)])


section \<open>Delete-forward\<close>

lemma scan_delete_next:
  assumes m: "m = [EOT] \<or> m = ESC # ''[3~''"
    and len: "int (length m) \<le> frm s"
    and pre: "prefix m (p s)"
  shows "scan_specials (specials echo) s b False = fire delete_next m s b False"
proof -
  from pre obtain ps where ps: "p s = m @ ps"
    by (auto simp: prefix_def)
  from m show ?thesis
  proof
    assume "m = [EOT]"
    with len ps show ?thesis by (simp add: specials_def scan_case_fire)
  next
    assume "m = ESC # ''[3~''"
    with len ps show ?thesis by (simp add: specials_def scan_case_fire)
  qed
qed

lemma body_delete_next:
  assumes ok: "cursor_ok s"
    and m: "m = [EOT] \<or> m = ESC # ''[3~''"
    and len: "int (length m) \<le> frm s"
    and pre: "prefix m (p s)"
  shows "body echo s =
    (if offset s = int (length (unread s)) then Return (unread s) ErrEOF s
     else Continue (s\<lparr>unread := take (nat (offset s)) (unread s) @ drop (Suc (nat (offset s))) (unread s),
                       p := shift (length m) (p s), frm := frm s - int (length m)\<rparr>))"
proof -
  from pre obtain ps where ps: "p s = m @ ps"
    by (auto simp: prefix_def)
  have etx: "\<not> snd (match (p s) [[ETX]])"
    using m ps by auto
  have nat_suc: "nat (offset s + 1) = Suc (nat (offset s))"
    using ok by (simp add: cursor_ok_def nat_add_distrib)
  have "fire delete_next m s [p s ! 0] False =
    (if offset s = int (length (unread s)) then Ret (unread s) ErrEOF s
     else Scanned (s\<lparr>unread := take (nat (offset s)) (unread s) @ drop (Suc (nat (offset s))) (unread s),
                       p := shift (length m) (p s), frm := frm s - int (length m)\<rparr>) [p s ! 0] False True False)"
    using ok nat_suc by (simp add: fire_def delete_next_def cursor_ok_def)
  then show ?thesis
    using etx by (simp add: body_def scan_delete_next [OF m len pre])
qed

text \<open>
  C4. Delete-forward is dispatched when \<^verbatim>\<open>p\<close> starts with one of its two codes, all of
  it read. With the cursor at the end of the line the dispatch loop returns the error
  \<^verbatim>\<open>ErrEOF\<close> with the text of the line, and so does the read (second part: \<open>s0\<close> is the
  state at the \<^verbatim>\<open>Read\<close> that got the chunk, and \<open>s\<close> is reached in the loop over it).
  Otherwise the byte at the cursor is removed, the cursor stays where it is, the code is
  taken out of \<^verbatim>\<open>p\<close> and the loop goes on.
\<close>

theorem delete_forward:
  assumes "cursor_ok s"
    and "m = [EOT] \<or> m = ESC # ''[3~''"
    and "int (length m) \<le> frm s"
    and "prefix m (p s)"
  shows "process echo s =
      (if offset s = int (length (unread s)) then Returns (unread s) ErrEOF s
       else process echo
              (s\<lparr>unread := take (nat (offset s)) (unread s) @ drop (Suc (nat (offset s))) (unread s),
                 p := shift (length m) (p s), frm := frm s - int (length m)\<rparr>)) \<and>
    (offset s = int (length (unread s)) \<longrightarrow>
      (\<forall>s0 bs rest. newline s0 = - 1 \<and> 0 \<le> frm s0 \<and> frm s0 \<le> int (length (p s0)) \<and>
          (length (p s0) - nat (frm s0) = 0 \<longrightarrow> bs = []) \<and>
          reaches echo (fill (take (length (p s0) - nat (frm s0)) bs) s0) s \<longrightarrow>
        readLoop echo s0 (Bytes bs # rest) =
          Returned (unread s) (Some ErrEOF)
            (s, if length bs \<le> length (p s0) - nat (frm s0) then rest
                else Bytes (drop (length (p s0) - nat (frm s0)) bs) # rest)))"
proof -
  have "0 < frm s" using assms(2,3) by auto
  then have 1: "process echo s =
      (if offset s = int (length (unread s)) then Returns (unread s) ErrEOF s
       else process echo
              (s\<lparr>unread := take (nat (offset s)) (unread s) @ drop (Suc (nat (offset s))) (unread s),
                 p := shift (length m) (p s), frm := frm s - int (length m)\<rparr>))"
    by (subst process.simps) (simp add: body_delete_next [OF assms])
  show ?thesis
  proof (intro conjI impI allI)
    show "process echo s =
      (if offset s = int (length (unread s)) then Returns (unread s) ErrEOF s
       else process echo
              (s\<lparr>unread := take (nat (offset s)) (unread s) @ drop (Suc (nat (offset s))) (unread s),
                 p := shift (length m) (p s), frm := frm s - int (length m)\<rparr>))"
      by (rule 1)
  next
    fix s0 bs rest
    assume e: "offset s = int (length (unread s))"
      and a: "newline s0 = - 1 \<and> 0 \<le> frm s0 \<and> frm s0 \<le> int (length (p s0)) \<and>
          (length (p s0) - nat (frm s0) = 0 \<longrightarrow> bs = []) \<and>
          reaches echo (fill (take (length (p s0) - nat (frm s0)) bs) s0) s"
    from 1 e have "process echo s = Returns (unread s) ErrEOF s" by simp
    with a show "readLoop echo s0 (Bytes bs # rest) =
          Returned (unread s) (Some ErrEOF)
            (s, if length bs \<le> length (p s0) - nat (frm s0) then rest
                else Bytes (drop (length (p s0) - nat (frm s0)) bs) # rest)"
      by (intro readLoop_returns) simp_all
  qed
qed


theorem delete_forward_witness:
  "cursor_ok eot_at_end \<and> int (length [EOT]) \<le> frm eot_at_end \<and> prefix [EOT] (p eot_at_end) \<and>
   process True eot_at_end = Returns ''a'' ErrEOF eot_at_end \<and>
   readLoop True typed_a [Bytes [EOT]] = Returned ''a'' (Some ErrEOF) (eot_at_end, []) \<and>
   cursor_ok del_at_start \<and> int (length (ESC # ''[3~'')) \<le> frm del_at_start \<and>
   prefix (ESC # ''[3~'') (p del_at_start) \<and>
   process True del_at_start
     = Done (del_at_start\<lparr>unread := [], p := p typed_a, frm := 0\<rparr>)"
proof -
  have a: "cursor_ok eot_at_end" "int (length [EOT]) \<le> frm eot_at_end"
    "prefix [EOT] (p eot_at_end)"
    by (simp_all add: cursor_ok_def eval_defs)
  have b: "cursor_ok del_at_start" "int (length (ESC # ''[3~'')) \<le> frm del_at_start"
    "prefix (ESC # ''[3~'') (p del_at_start)"
    by (simp_all add: cursor_ok_def eval_defs)
  have c: "offset eot_at_end = int (length (unread eot_at_end))" "unread eot_at_end = ''a''"
    "offset del_at_start \<noteq> int (length (unread del_at_start))"
    by (simp_all add: eval_defs)
  have d: "newline typed_a = - 1 \<and> 0 \<le> frm typed_a \<and> frm typed_a \<le> int (length (p typed_a)) \<and>
      (length (p typed_a) - nat (frm typed_a) = 0 \<longrightarrow> [EOT] = []) \<and>
      reaches True (fill (take (length (p typed_a) - nat (frm typed_a)) [EOT]) typed_a) eot_at_end"
    by (simp add: eval_defs reaches.here)
  have e: "length [EOT] \<le> length (p typed_a) - nat (frm typed_a)"
    by (simp add: eval_defs)
  have f: "process True
     (del_at_start\<lparr>unread := take (nat (offset del_at_start)) (unread del_at_start)
          @ drop (Suc (nat (offset del_at_start))) (unread del_at_start),
        p := shift (length (ESC # ''[3~'')) (p del_at_start),
        frm := frm del_at_start - int (length (ESC # ''[3~''))\<rparr>)
     = Done (del_at_start\<lparr>unread := [], p := p typed_a, frm := 0\<rparr>)"
    by (simp add: eval_defs cong: eval_congs)
  from delete_forward [OF a(1) _ a(2,3), of True] c d e
  have 1: "process True eot_at_end = Returns ''a'' ErrEOF eot_at_end"
    and 2: "readLoop True typed_a [Bytes [EOT]] = Returned ''a'' (Some ErrEOF) (eot_at_end, [])"
    by auto
  from delete_forward [OF b(1) _ b(2,3), of True] c f
  have 3: "process True del_at_start
     = Done (del_at_start\<lparr>unread := [], p := p typed_a, frm := 0\<rparr>)"
    by simp
  from a b 1 2 3 show ?thesis by blast
qed

section \<open>The interrupt byte\<close>

lemma body_interrupt:
  "take 1 (p s) = [ETX] \<Longrightarrow> body echo s = Return [] ErrTerminated (s\<lparr>out := out s @ ''^C''\<rparr>)"
  by (simp add: body_def)

text \<open>
  C5, as the claim states it, fails in its last part: the read returns the empty string,
  but nothing resets \<^verbatim>\<open>r.unread\<close> and \<^verbatim>\<open>r.offset\<close>, so the text typed before the
  interrupt stays in the Reader. After \<^verbatim>\<open>ab\<close> and the interrupt byte the Reader holds
  \<^verbatim>\<open>ab\<close>, and the next read, given a line feed alone, returns the line \<^verbatim>\<open>ab\<close>.
\<close>

theorem interrupt_leaves_text_in_reader:
  "ReadString (Some NewReader)
      \<lparr>stdin = [Bytes (''ab'' @ [ETX]), Bytes [LF]], stdout = [], tty = None\<rparr>
    = Returned [] (Some ErrTerminated)
        (Some (NewReader\<lparr>unread := ''ab'', offset := 2\<rparr>),
         \<lparr>stdin = [Bytes [LF]], stdout = ''^C'', tty = None\<rparr>) \<and>
   ReadString (Some (NewReader\<lparr>unread := ''ab'', offset := 2\<rparr>))
      \<lparr>stdin = [Bytes [LF]], stdout = ''^C'', tty = None\<rparr>
    = Returned (''ab'' @ [LF]) None
        (Some (NewReader\<lparr>h := [''ab'' @ [LF]]\<rparr>),
         \<lparr>stdin = [], stdout = ''^C'' @ [CR, LF], tty = None\<rparr>)"
  by (simp add: eval_defs cong: eval_congs)

text \<open>
  C5, amended. Whenever the interrupt byte is the next byte of \<^verbatim>\<open>p\<close> at the head of a
  pass through the dispatch loop, before any look at the command table, the loop prints
  \<^verbatim>\<open>^C\<close> and returns the empty string with \<^verbatim>\<open>ErrTerminated\<close>, and so does the read. The
  text typed so far is not returned; it stays in the Reader, with the cursor offset, for
  the next read.
\<close>

theorem interrupt_keeps_buffer:
  assumes "0 < frm s" "take 1 (p s) = [ETX]"
  shows "process echo s = Returns [] ErrTerminated (s\<lparr>out := out s @ ''^C''\<rparr>) \<and>
    (\<forall>s0 bs rest. newline s0 = - 1 \<and> 0 \<le> frm s0 \<and> frm s0 \<le> int (length (p s0)) \<and>
          (length (p s0) - nat (frm s0) = 0 \<longrightarrow> bs = []) \<and>
          reaches echo (fill (take (length (p s0) - nat (frm s0)) bs) s0) s \<longrightarrow>
        readLoop echo s0 (Bytes bs # rest) =
          Returned [] (Some ErrTerminated)
            (s\<lparr>out := out s @ ''^C''\<rparr>,
             if length bs \<le> length (p s0) - nat (frm s0) then rest
             else Bytes (drop (length (p s0) - nat (frm s0)) bs) # rest))"
proof -
  have 1: "process echo s = Returns [] ErrTerminated (s\<lparr>out := out s @ ''^C''\<rparr>)"
    using assms by (subst process.simps) (simp add: body_interrupt)
  show ?thesis
  proof (intro conjI impI allI)
    show "process echo s = Returns [] ErrTerminated (s\<lparr>out := out s @ ''^C''\<rparr>)"
      by (rule 1)
  next
    fix s0 bs rest
    assume a: "newline s0 = - 1 \<and> 0 \<le> frm s0 \<and> frm s0 \<le> int (length (p s0)) \<and>
          (length (p s0) - nat (frm s0) = 0 \<longrightarrow> bs = []) \<and>
          reaches echo (fill (take (length (p s0) - nat (frm s0)) bs) s0) s"
    with 1 show "readLoop echo s0 (Bytes bs # rest) =
          Returned [] (Some ErrTerminated)
            (s\<lparr>out := out s @ ''^C''\<rparr>,
             if length bs \<le> length (p s0) - nat (frm s0) then rest
             else Bytes (drop (length (p s0) - nat (frm s0)) bs) # rest)"
      by (intro readLoop_returns) simp_all
  qed
qed


theorem interrupt_keeps_buffer_witness:
  "0 < frm etx_typed \<and> take 1 (p etx_typed) = [ETX] \<and>
   process True etx_typed = Returns [] ErrTerminated (etx_typed\<lparr>out := ''^C''\<rparr>) \<and>
   readLoop True typed_a [Bytes [ETX]]
     = Returned [] (Some ErrTerminated) (etx_typed\<lparr>out := ''^C''\<rparr>, []) \<and>
   unread (etx_typed\<lparr>out := ''^C''\<rparr>) = ''a''"
proof -
  have a: "0 < frm etx_typed" "take 1 (p etx_typed) = [ETX]"
    by (simp_all add: eval_defs)
  have d: "newline typed_a = - 1 \<and> 0 \<le> frm typed_a \<and> frm typed_a \<le> int (length (p typed_a)) \<and>
      (length (p typed_a) - nat (frm typed_a) = 0 \<longrightarrow> [ETX] = []) \<and>
      reaches True (fill (take (length (p typed_a) - nat (frm typed_a)) [ETX]) typed_a) etx_typed"
    by (simp add: eval_defs reaches.here)
  have e: "length [ETX] \<le> length (p typed_a) - nat (frm typed_a)" "out etx_typed = []"
    "unread etx_typed = ''a''"
    by (simp_all add: eval_defs)
  from interrupt_keeps_buffer [OF a, of True] d e a show ?thesis
    by auto
qed

section \<open>Errors of the input stream\<close>

text \<open>
  C9. At every \<^verbatim>\<open>Read\<close> of the outer loop (no complete line is pending, and
  \<^verbatim>\<open>p[from:]\<close> is a slice of \<^verbatim>\<open>p\<close>), an error of the stream makes the read return at
  once the empty string and that very error; no further \<^verbatim>\<open>Read\<close> is made (the rest of
  the input is left as it is) and the Reader is as it was. The second part is the first
  \<^verbatim>\<open>Read\<close> of a call of \<^verbatim>\<open>readString\<close>.
\<close>

theorem stream_error_returned:
  "(newline s = - 1 \<and> 0 \<le> frm s \<and> frm s \<le> int (length (p s)) \<longrightarrow>
      readLoop echo s (Fails e # rest) = Returned [] (Some e) (s, rest)) \<and>
   (IndexByte (unread r) LF = - 1 \<and> stdin w = Fails e # rest \<longrightarrow>
      readString echo (Some r) w =
        Returned [] (Some e)
          (Some (leave (enter echo r w)), w\<lparr>stdin := rest, stdout := out (enter echo r w)\<rparr>))"
proof -
  have 1: "readLoop echo t (Fails e # rest) = Returned [] (Some e) (t, rest)"
    if "newline t = - 1" "0 \<le> frm t" "frm t \<le> int (length (p t))" for t
    using that by (subst readLoop.simps) simp
  have "readString echo (Some r) w =
        Returned [] (Some e)
          (Some (leave (enter echo r w)), w\<lparr>stdin := rest, stdout := out (enter echo r w)\<rparr>)"
    if "IndexByte (unread r) LF = - 1" "stdin w = Fails e # rest"
  proof -
    have "readLoop echo (enter echo r w) (Fails e # rest)
      = Returned [] (Some e) (enter echo r w, rest)"
      by (rule 1) (simp_all add: enter_def that)
    then show ?thesis
      by (simp add: readString_def that)
  qed
  with 1 show ?thesis by blast
qed

theorem stream_error_returned_witness:
  "newline typed_a = - 1 \<and> 0 \<le> frm typed_a \<and> frm typed_a \<le> int (length (p typed_a)) \<and>
   readLoop True typed_a [Fails (StreamError ''EOF''), Bytes ''b'']
     = Returned [] (Some (StreamError ''EOF'')) (typed_a, [Bytes ''b'']) \<and>
   ReadPassword (Some NewReader)
       \<lparr>stdin = [Fails (StreamError ''EOF'')], stdout = [], tty = Some (80, 24)\<rparr>
     = Returned [] (Some (StreamError ''EOF''))
         (Some (NewReader\<lparr>row := 24, col := 80\<rparr>), \<lparr>stdin = [], stdout = [], tty = Some (80, 24)\<rparr>)"
proof -
  have a: "newline typed_a = - 1 \<and> 0 \<le> frm typed_a \<and> frm typed_a \<le> int (length (p typed_a))"
    by (simp add: eval_defs)
  have b: "IndexByte (unread NewReader) LF = - 1 \<and>
    stdin \<lparr>stdin = [Fails (StreamError ''EOF'')], stdout = [], tty = Some (80, 24)\<rparr>
      = Fails (StreamError ''EOF'') # []"
    by (simp add: NewReader_def)
  from stream_error_returned [where s = typed_a and echo = True and e = "StreamError ''EOF''"
      and rest = "[Bytes ''b'']"] a
  have 1: "readLoop True typed_a [Fails (StreamError ''EOF''), Bytes ''b'']
     = Returned [] (Some (StreamError ''EOF'')) (typed_a, [Bytes ''b''])"
    by blast
  from stream_error_returned [where r = NewReader and echo = False
      and e = "StreamError ''EOF''" and rest = "[]"
      and w = "\<lparr>stdin = [Fails (StreamError ''EOF'')], stdout = [], tty = Some (80, 24)\<rparr>"] b
  have 2: "ReadPassword (Some NewReader)
       \<lparr>stdin = [Fails (StreamError ''EOF'')], stdout = [], tty = Some (80, 24)\<rparr>
     = Returned [] (Some (StreamError ''EOF''))
         (Some (NewReader\<lparr>row := 24, col := 80\<rparr>), \<lparr>stdin = [], stdout = [], tty = Some (80, 24)\<rparr>)"
    by (simp add: ReadPassword_def enter_def leave_def NewReader_def)
  from a 1 2 show ?thesis by blast
qed

section \<open>Silent reads and the history\<close>

lemma consume_h: "consume b t = Continue t' \<Longrightarrow> h t' = h t"
  by (auto simp: consume_def split: if_splits)

lemma complete_silent_h: "complete False t = Inr (line, t') \<Longrightarrow> h t' = h t"
  by (auto simp: complete_def Let_def split: if_splits)

lemma readLoop_silent_h:
  assumes "readLoop False s ins = Returned x e (s', ins')"
  shows "h s' = h s"
proof -
  define P :: "string list \<Rightarrow> string \<Rightarrow> int \<Rightarrow> bool"
    where "P = (\<lambda>hs u k. hs = h s)"
  have P: "P (h t) (unread t) (offset t) = (h t = h s)" for t :: state
    by (simp add: P_def)
  have P0: "P (h s) (unread s) (offset s)"
    by (simp add: P)
  have hand: "P (h t') (unread t') (offset t')"
    if "(codes, fn) \<in> set (specials False)" "P (h t) (unread t) (offset t)"
      "fn m t = Inr (t', x, e)" for codes fn m t t' x e
    using handler_frame [OF that(1,3)] that(2) by (simp add: P_def)
  have cons: "P (h t') (unread t') (offset t')"
    if "P (h t) (unread t) (offset t)" "b \<noteq> []" "consume b t = Continue t'" for b t t'
    using consume_h [OF that(3)] that(1) by (simp add: P_def)
  have compl: "P (h t') (unread t') (offset t')"
    if "P (h t) (unread t) (offset t)" "complete False t = Inr (line, t')" for t line t'
    using complete_silent_h [OF that(2)] that(1) by (simp add: P_def)
  show ?thesis
    using readLoop_preserves [of False P s ins x e s' ins', OF hand cons compl P0 assms]
    by (simp add: P)
qed

lemma scan_recall_silent:
  assumes k: "k = ESC # ''[A'' \<or> k = ESC # ''[B''"
    and len: "3 \<le> frm s"
    and pre: "prefix k (p s)"
  shows "\<exists>q. scan_specials (specials False) s b False =
    Scanned (s\<lparr>p := shift 3 (p s), frm := frm s - 3\<rparr>) b q True False"
proof -
  from pre obtain ps where ps: "p s = k @ ps"
    by (auto simp: prefix_def)
  consider "frm s = 3" | "4 \<le> frm s" using len by linarith
  then show ?thesis
  proof cases
    case 1
    then have n: "nat (frm s) = 3" by simp
    from k show ?thesis
    proof
      assume "k = ESC # ''[A''"
      with 1 n ps show ?thesis
        by (auto simp: specials_def fire_def up_arrow_def numeral_3_eq_3)
    next
      assume "k = ESC # ''[B''"
      with 1 n ps show ?thesis
        by (auto simp: specials_def fire_def up_arrow_def down_arrow_def numeral_3_eq_3)
    qed
  next
    case 2
    from k show ?thesis
    proof
      assume "k = ESC # ''[A''"
      with 2 ps show ?thesis
        by (auto simp: specials_def fire_def up_arrow_def numeral_3_eq_3)
    next
      assume "k = ESC # ''[B''"
      with 2 ps show ?thesis
        by (auto simp: specials_def fire_def up_arrow_def down_arrow_def numeral_3_eq_3)
    qed
  qed
qed

text \<open>
  C6. A call of \<^verbatim>\<open>ReadPassword\<close> that returns, with a line or with an error, leaves the
  history as it was, so \<^verbatim>\<open>History(n)\<close> gives what it gave before, for every \<open>n\<close>. In a
  silent read the two recall handlers change nothing, and a pass through the loop body
  that dispatches one of them only takes the three bytes of the code out of \<^verbatim>\<open>p\<close>: the
  line and the cursor offset are as before.
\<close>

theorem silent_read_leaves_history:
  "(ReadPassword (Some r) w = Returned x e (Some r', w') \<longrightarrow>
      h r' = h r \<and> (\<forall>n. History (Some r') n = History (Some r) n)) \<and>
   up_arrow False m s = Inr (s, None, None) \<and>
   down_arrow False m s = Inr (s, None, None) \<and>
   ((k = ESC # ''[A'' \<or> k = ESC # ''[B'') \<and> 3 \<le> frm s \<and> prefix k (p s) \<longrightarrow>
      body False s = Continue (s\<lparr>p := shift 3 (p s), frm := frm s - 3\<rparr>))"
proof -
  have 1: "h r' = h r \<and> (\<forall>n. History (Some r') n = History (Some r) n)"
    if "ReadPassword (Some r) w = Returned x e (Some r', w')"
  proof -
    from that obtain s' ins' where
      loop: "readLoop False (enter False r w) (stdin w) = Returned x e (s', ins')"
      and r': "r' = leave s'"
      by (auto simp: ReadPassword_def readString_def split: outcome.splits prod.splits)
    have "h s' = h (enter False r w)"
      using loop by (rule readLoop_silent_h)
    then have "h r' = h r"
      by (simp add: r' leave_def enter_def)
    then show ?thesis
      by (simp add: History_def Let_def)
  qed
  have 2: "up_arrow False m s = Inr (s, None, None)"
    by (simp add: up_arrow_def)
  have 3: "down_arrow False m s = Inr (s, None, None)"
    by (simp add: down_arrow_def)
  have 4: "body False s = Continue (s\<lparr>p := shift 3 (p s), frm := frm s - 3\<rparr>)"
    if "(k = ESC # ''[A'' \<or> k = ESC # ''[B'') \<and> 3 \<le> frm s \<and> prefix k (p s)"
  proof -
    from that obtain q where
      "scan_specials (specials False) s [p s ! 0] False =
        Scanned (s\<lparr>p := shift 3 (p s), frm := frm s - 3\<rparr>) [p s ! 0] q True False"
      using scan_recall_silent [of k s "[p s ! 0]"] by blast
    moreover have "\<not> snd (match (p s) [[ETX]])"
      using that by (auto simp: prefix_def)
    ultimately show ?thesis
      by (simp add: body_def)
  qed
  from 1 2 3 4 show ?thesis by blast
qed


theorem silent_read_leaves_history_witness:
  "ReadPassword (Some after_ls) secret_typed
     = Returned (''secret'' @ [LF]) None
         (Some after_ls, \<lparr>stdin = [], stdout = [CR, LF], tty = None\<rparr>) \<and>
   h after_ls = [''ls'' @ [LF]] \<and>
   History (Some after_ls) 0 = Inr (''ls'' @ [LF], 1) \<and>
   3 \<le> frm (fill (ESC # ''[A'') typed_a) \<and>
   prefix (ESC # ''[A'') (p (fill (ESC # ''[A'') typed_a)) \<and>
   body False (fill (ESC # ''[A'') typed_a) = Continue typed_a"
proof -
  have a: "ReadPassword (Some after_ls) secret_typed
     = Returned (''secret'' @ [LF]) None
         (Some after_ls, \<lparr>stdin = [], stdout = [CR, LF], tty = None\<rparr>)"
    by (simp add: after_ls_def secret_typed_def eval_defs cong: eval_congs)
  have b: "h after_ls = [''ls'' @ [LF]]" "History (Some after_ls) 0 = Inr (''ls'' @ [LF], 1)"
    by (simp_all add: after_ls_def NewReader_def History_def)
  have c: "3 \<le> frm (fill (ESC # ''[A'') typed_a)"
    "prefix (ESC # ''[A'') (p (fill (ESC # ''[A'') typed_a))"
    by (simp_all add: eval_defs)
  have d: "(fill (ESC # ''[A'') typed_a)\<lparr>p := shift 3 (p (fill (ESC # ''[A'') typed_a)),
      frm := frm (fill (ESC # ''[A'') typed_a) - 3\<rparr> = typed_a"
    by (simp add: eval_defs)
  from silent_read_leaves_history [where r = after_ls and w = secret_typed
      and s = "fill (ESC # ''[A'') typed_a" and k = "ESC # ''[A''"] a b c d
  show ?thesis by simp
qed

section \<open>Literal bytes and the terminator\<close>












lemma fill_fields [simp]:
  "h (fill g s) = h s" "unread (fill g s) = unread s" "offset (fill g s) = offset s"
  "row (fill g s) = row s" "col (fill g s) = col s" "atR (fill g s) = atR s"
  "atC (fill g s) = atC s" "pick (fill g s) = pick s" "newline (fill g s) = newline s"
  "was (fill g s) = was s" "wasLines (fill g s) = wasLines s" "out (fill g s) = out s"
  by (simp_all add: fill_def)















section \<open>Carriage return and line feed\<close>






section \<open>Redrawing a line that wraps\<close>

text \<open>
  The line is drawn by the redraw at the end of a pass through the outer loop, once for
  each chunk a \<^verbatim>\<open>Read\<close> delivers, and only while no line is complete. Here the terminal
  answers the cursor request first, then the twelve characters arrive in one chunk and
  the line feed in the next. The redraw prints a break before every character \<^verbatim>\<open>i\<close> with
  \<^verbatim>\<open>(i + cOffset) % w == 0\<close>, which with \<^verbatim>\<open>cOffset = 0\<close> holds of the first character too.
\<close>

lemma wrapped_line_output:
  "ReadString (Some NewReader)
      (eleven_wide\<lparr>stdin := [Bytes cursor_report, Bytes ''abcdefghijkl'', Bytes [LF]]\<rparr>)
    = Returned (''abcdefghijkl'' @ [LF]) None
        (Some (NewReader\<lparr>h := [''abcdefghijkl'' @ [LF]], row := 24, col := 11,
                 atR := 5, atC := 1\<rparr>),
         eleven_wide\<lparr>stdout := (ESC # ''[6n'' @ clearEOL @ wrap_break) @
            ''abcdefghij'' @ wrap_break @ ''kl'' @ clearEOL @ [CR, LF]\<rparr>)"
  by (simp add: eval_defs eleven_wide_def cursor_report_def wrap_break_def cong: eval_congs)

text \<open>
  C8, as the claim states it, fails: what is drawn depends on how the input arrives.
  When the twelve characters and the line feed come in one chunk the line is complete at
  the end of the pass, the redraw is skipped, and the output holds the cursor request,
  the redraw of the empty line after the terminal's answer and the final \<^verbatim>\<open>"\r\n"\<close>: no
  character of the line and no continuation break, though the read returns the line.
\<close>

theorem line_in_one_chunk_is_not_drawn:
  "ReadString (Some NewReader)
      (eleven_wide\<lparr>stdin := [Bytes cursor_report, Bytes (''abcdefghijkl'' @ [LF])]\<rparr>)
    = Returned (''abcdefghijkl'' @ [LF]) None
        (Some (NewReader\<lparr>h := [''abcdefghijkl'' @ [LF]], row := 24, col := 11,
                 atR := 5, atC := 1\<rparr>),
         eleven_wide\<lparr>stdout := ESC # ''[6n'' @ clearEOL @ [CR, LF]\<rparr>)"
  by (simp add: eval_defs eleven_wide_def cursor_report_def cong: eval_congs)

text \<open>
  C8, amended. With \<^verbatim>\<open>w = r.col - 1 = 10\<close> and \<^verbatim>\<open>cOffset = 0\<close>, when the twelve characters
  arrive in one chunk and the line feed in the next, the read returns
  \<^verbatim>\<open>"abcdefghijkl\n"\<close> and stores it in the history, and the output ends with the line as
  the redraw wraps it: the first ten characters, one continuation break, the final two
  characters, the clear to the end of the line, and the \<^verbatim>\<open>"\r\n"\<close> of the terminator.
  What the output holds before that has no character of the line.
\<close>

theorem wrapped_line_drawn:
  "\<exists>front r'.
     ReadString (Some NewReader)
        (eleven_wide\<lparr>stdin := [Bytes cursor_report, Bytes ''abcdefghijkl'', Bytes [LF]]\<rparr>)
      = Returned (''abcdefghijkl'' @ [LF]) None
          (Some r', eleven_wide\<lparr>stdout :=
             front @ ''abcdefghij'' @ wrap_break @ ''kl'' @ clearEOL @ [CR, LF]\<rparr>) \<and>
     col r' - 1 = 10 \<and> atC r' - 1 = 0 \<and> h r' = [''abcdefghijkl'' @ [LF]] \<and>
     list_all (\<lambda>c. c \<notin> set ''abcdefghijkl'') front"
proof (intro exI conjI)
  show "ReadString (Some NewReader)
        (eleven_wide\<lparr>stdin := [Bytes cursor_report, Bytes ''abcdefghijkl'', Bytes [LF]]\<rparr>)
      = Returned (''abcdefghijkl'' @ [LF]) None
          (Some (NewReader\<lparr>h := [''abcdefghijkl'' @ [LF]], row := 24, col := 11,
                 atR := 5, atC := 1\<rparr>), eleven_wide\<lparr>stdout :=
             (ESC # ''[6n'' @ clearEOL @ wrap_break) @ ''abcdefghij'' @ wrap_break @ ''kl'' @ clearEOL @ [CR, LF]\<rparr>)"
    by (rule wrapped_line_output)
qed (simp_all add: clearEOL_def wrap_break_def)

end
